theory Spec2Isabelle
  imports Main
begin

section \<open>JavaScript strings and collections\<close>

text \<open>
  A string is a list of 8-bit characters, one per code unit; the package names, versions
  and paths handled here are ASCII. Indices are integers, and a failed search is \<open>-1\<close>,
  as in JavaScript.
\<close>

primrec first_index :: "char \<Rightarrow> string \<Rightarrow> nat option" where
  "first_index c [] = None"
| "first_index c (x # xs) = (if x = c then Some 0 else map_option Suc (first_index c xs))"

text \<open>\<^verbatim>\<open>s.indexOf(c, from)\<close> for a one-character search string and \<open>from \<ge> 0\<close>.\<close>

definition indexOf :: "string \<Rightarrow> char \<Rightarrow> nat \<Rightarrow> int" where
  "indexOf s c from =
     (case first_index c (drop from s) of None \<Rightarrow> - 1 | Some k \<Rightarrow> int (from + k))"

text \<open>\<^verbatim>\<open>s.lastIndexOf(c)\<close>.\<close>

definition lastIndexOf :: "string \<Rightarrow> char \<Rightarrow> int" where
  "lastIndexOf s c =
     (case first_index c (rev s) of None \<Rightarrow> - 1 | Some k \<Rightarrow> int (length s - 1 - k))"

text \<open>\<^verbatim>\<open>s.charAt(i)\<close>: the empty string out of range.\<close>

definition charAt :: "string \<Rightarrow> int \<Rightarrow> string" where
  "charAt s i = (if 0 \<le> i \<and> nat i < length s then [s ! nat i] else [])"

text \<open>\<^verbatim>\<open>s.includes(c)\<close> and \<^verbatim>\<open>s.startsWith(p)\<close>.\<close>

definition js_includes :: "string \<Rightarrow> char \<Rightarrow> bool" where
  "js_includes s c = (first_index c s \<noteq> None)"

definition startsWith :: "string \<Rightarrow> string \<Rightarrow> bool" where
  "startsWith s p = (take (length p) s = p)"

text \<open>
  \<^verbatim>\<open>s.split(c, 2)\<close>: at most two pieces are kept; whatever follows a second separator is
  discarded. The second piece is absent when \<open>s\<close> has no separator.
\<close>

definition split2 :: "string \<Rightarrow> char \<Rightarrow> string \<times> string option" where
  "split2 s c =
     (case first_index c s of
        None \<Rightarrow> (s, None)
      | Some k \<Rightarrow>
          (take k s,
           Some (let r = drop (Suc k) s
                 in case first_index c r of None \<Rightarrow> r | Some j \<Rightarrow> take j r)))"

text \<open>\<^verbatim>\<open>s.replace(a, b)\<close> with a string pattern: only the first occurrence is replaced.\<close>

primrec replace_first :: "char \<Rightarrow> char \<Rightarrow> string \<Rightarrow> string" where
  "replace_first a b [] = []"
| "replace_first a b (x # xs) = (if x = a then b # xs else x # replace_first a b xs)"

text \<open>
  A \<^verbatim>\<open>Set\<close> keeps its elements in insertion order; adding an element already
  present changes nothing.
\<close>

definition set_add :: "'a \<Rightarrow> 'a list \<Rightarrow> 'a list" where
  "set_add x xs = (if x \<in> set xs then xs else xs @ [x])"

text \<open>\<^verbatim>\<open>new Set(xs)\<close>, read back as an array.\<close>

definition new_Set :: "'a list \<Rightarrow> 'a list" where
  "new_Set xs = fold set_add xs []"

section \<open>Errors\<close>

text \<open>
  Every \<^verbatim>\<open>throw\<close> of the two resolvers, named after its message, together with the
  run-time \<^verbatim>\<open>TypeError\<close> of a property read on \<^verbatim>\<open>undefined\<close> and a rejected
  \<^verbatim>\<open>realpath\<close>.
\<close>

datatype error =
    DependencySeenMoreThanOnce string
  | CouldNotFindDependency string
  | InvalidPackageAtVersion string
  | InvalidMultiPackage string string
  | ExceededMaxIters string
  | NoPackageJson string
  | NoPackageName string
  | InvalidSpecifier string
  | InvalidVersionString string
  | CouldNotFindRegistry string
  | CouldNotFindPackage string string
  | NoDenoLock
  | TypeError
  | RealpathRejected string

section \<open>The host\<close>

text \<open>
  An object that \<^verbatim>\<open>JSON.parse\<close> builds inherits from \<^verbatim>\<open>Object.prototype\<close>: a read
  \<^verbatim>\<open>o[k]\<close> finds the key \<open>k\<close> of \<open>o\<close> itself or, when \<open>o\<close> has no such key, the
  member of that name of \<^verbatim>\<open>Object.prototype\<close>. These are its members; each is a
  function or an object, hence truthy, and none has a property \<^verbatim>\<open>dependencies\<close> or
  \<^verbatim>\<open>packageJson\<close>.
\<close>

definition Object_prototype :: "string list" where
  "Object_prototype =
     [''constructor'', ''__defineGetter__'', ''__defineSetter__'', ''hasOwnProperty'',
      ''__lookupGetter__'', ''__lookupSetter__'', ''isPrototypeOf'', ''propertyIsEnumerable'',
      ''toString'', ''valueOf'', ''__proto__'', ''toLocaleString'']"

text \<open>
  What a read of a property gives, as far as the lockfile resolver looks at it: the read
  throws, or the value is falsy, or it is truthy, with the strings of its
  \<^verbatim>\<open>dependencies\<close> when that is truthy. A value whose \<^verbatim>\<open>dependencies\<close> cannot be
  looped over as strings counts as a read that throws: both end the call with a
  \<^verbatim>\<open>TypeError\<close>.
\<close>

datatype js_value = Throws | Falsy | Truthy "string list option"

text \<open>A value that is no section of the lock document, as an object: what
  \<^verbatim>\<open>Object.keys\<close> gives for it, and its properties.\<close>

record js_object =
  own_keys :: "string list"
  read_property :: "string \<Rightarrow> js_value"

text \<open>
  What the resolvers call outside the repository: \<^verbatim>\<open>path.join\<close> of Node, the
  \<^verbatim>\<open>parse-semver\<close> package (the parsed name, or \<open>None\<close> when it throws),
  \<^verbatim>\<open>fs.realpath\<close> (\<open>None\<close> when it rejects) and the parsed content of the
  \<^verbatim>\<open>package.json\<close> at a path (\<open>None\<close> when the file does not exist). For the lock
  document, \<open>foreign k\<close> is the value of \<^verbatim>\<open>denoLock[k]\<close> for a \<open>k\<close> that is no
  registry section of the document: one of its fields \<^verbatim>\<open>version\<close>,
  \<^verbatim>\<open>specifiers\<close> and \<^verbatim>\<open>workspace\<close>, or a member that it inherits from
  \<^verbatim>\<open>Object.prototype\<close>; \<open>None\<close> when \<^verbatim>\<open>denoLock[k]\<close> is \<^verbatim>\<open>undefined\<close>. And
  \<open>inherited_text k\<close> is what a template literal prints for the member \<open>k\<close> of
  \<^verbatim>\<open>Object.prototype\<close>.
\<close>

record PackageJson =
  pj_name :: "string option"
  pj_dependencies :: "(string \<times> string) list option"

record host =
  path_join :: "string list \<Rightarrow> string"
  parseSemver :: "string \<Rightarrow> string option"
  realpath :: "string \<Rightarrow> string option"
  readPackageJson :: "string \<Rightarrow> PackageJson option"
  foreign :: "string \<Rightarrow> js_object option"
  inherited_text :: "string \<Rightarrow> string"

section \<open>The tree resolver\<close>

datatype YarnTreeNode = YarnTreeNode (raw_name: string) (raw_children: "YarnTreeNode list")

datatype YarnDependency =
  YarnDependency (name: string) (path: string) (children: "YarnDependency list")

text \<open>The test \<^verbatim>\<open>/@[\^~]/.test(s)\<close>.\<close>

fun test_range :: "string \<Rightarrow> bool" where
  "test_range (a # b # rest) =
     ((a = CHR ''@'' \<and> (b = CHR ''^'' \<or> b = CHR ''~'')) \<or> test_range (b # rest))"
| "test_range _ = False"

text \<open>A character that \<^verbatim>\<open>.\<close> of a regular expression does not match.\<close>

definition line_terminator :: "char \<Rightarrow> bool" where
  "line_terminator c = (c = CHR 0x0A \<or> c = CHR 0x0D)"

text \<open>
  \<^verbatim>\<open>s.replace(/^([^@+])@.*$/, '$1')\<close>: the class \<^verbatim>\<open>[^@+]\<close> matches one character,
  so the pattern matches only a string whose second character is \<open>@\<close>.
\<close>

definition strip_version :: "string \<Rightarrow> string" where
  "strip_version s =
     (case s of
        c # a # rest \<Rightarrow>
          if c \<noteq> CHR ''@'' \<and> c \<noteq> CHR ''+'' \<and> a = CHR ''@''
             \<and> list_all (\<lambda>x. \<not> line_terminator x) rest
          then [c] else s
      | _ \<Rightarrow> s)"

text \<open>Modelled from the spec: \<^verbatim>\<open>nonnull\<close> of \<^verbatim>\<open>../util\<close>, which is not among the
  sources; \<^verbatim>\<open>xs.filter(nonnull)\<close> keeps the elements that are not \<^verbatim>\<open>null\<close>.\<close>

definition filter_nonnull :: "'a option list \<Rightarrow> 'a list" where
  "filter_nonnull xs = concat (map (\<lambda>x. case x of None \<Rightarrow> [] | Some y \<Rightarrow> [y]) xs)"

fun asYarnDependency :: "host \<Rightarrow> string \<Rightarrow> YarnTreeNode \<Rightarrow> bool \<Rightarrow> YarnDependency option" where
  "asYarnDependency H prefix (YarnTreeNode label kids) prune =
     (if prune \<and> test_range label then None
      else
        let name = (case parseSemver H label of Some n \<Rightarrow> n | None \<Rightarrow> strip_version label);
            dependencyPath = path_join H [prefix, name]
        in Some (YarnDependency name dependencyPath
             (filter_nonnull
                (map (\<lambda>child.
                        asYarnDependency H (path_join H [prefix, name, ''node_modules'']) child prune)
                   kids))))"

text \<open>The index: the top-level nodes by name, in the order of the forest.\<close>

fun build_index ::
  "YarnDependency list \<Rightarrow> (string \<times> YarnDependency) list \<Rightarrow> error + (string \<times> YarnDependency) list"
where
  "build_index [] data = Inr data"
| "build_index (dep # deps) data =
     (if map_of data (name dep) \<noteq> None then Inl (DependencySeenMoreThanOnce (name dep))
      else build_index deps (data @ [(name dep, dep)]))"

definition index_find :: "(string \<times> YarnDependency) list \<Rightarrow> string \<Rightarrow> error + YarnDependency" where
  "index_find data n =
     (case map_of data n of None \<Rightarrow> Inl (CouldNotFindDependency n) | Some d \<Rightarrow> Inr d)"

text \<open>
  \<^verbatim>\<open>visit\<close> is a recursive closure over the mutable list \<^verbatim>\<open>reached.values\<close>. Here
  its call stack is explicit: \<open>todo\<close> holds the names still to be visited, first the
  children of the node in hand, then what the callers have left. The nodes in
  \<open>reached\<close> are top-level nodes, whose names are unique, so that equality of nodes is
  identity.
\<close>

function visit ::
  "(string \<times> YarnDependency) list \<Rightarrow> string list \<Rightarrow> YarnDependency list \<Rightarrow> error + YarnDependency list"
where
  "visit data [] reached = Inr reached"
| "visit data (n # todo) reached =
     (case index_find data n of
        Inl e \<Rightarrow> Inl e
      | Inr dep \<Rightarrow>
          if dep \<in> set reached then visit data todo reached
          else visit data (map name (children dep) @ todo) (reached @ [dep]))"
  by pat_completeness auto
termination
proof (relation "measures [\<lambda>(data, todo, reached). length (filter (\<lambda>d. d \<notin> set reached) (map snd data)),
                           \<lambda>(data, todo, reached). length todo]")
  show "wf (measures [\<lambda>(data, todo, reached). length (filter (\<lambda>d. d \<notin> set reached) (map snd data)),
                      \<lambda>(data, todo, reached). length todo])"
    by simp
next
  fix data :: "(string \<times> YarnDependency) list" and n todo reached dep
  assume "index_find data n = Inr dep" "dep \<in> set reached"
  then show "((data, todo, reached), (data, n # todo, reached))
        \<in> measures [\<lambda>(data, todo, reached). length (filter (\<lambda>d. d \<notin> set reached) (map snd data)),
                     \<lambda>(data, todo, reached). length todo]"
    by simp
next
  fix data :: "(string \<times> YarnDependency) list" and n todo reached dep
  assume f: "index_find data n = Inr dep" and nr: "dep \<notin> set reached"
  from f have "map_of data n = Some dep"
    by (simp add: index_find_def split: option.splits)
  then have mem: "dep \<in> set (map snd data)"
    by (force dest: map_of_SomeD)
  have "length (filter (\<lambda>d. d \<notin> set (reached @ [dep])) (map snd data))
        < length (filter (\<lambda>d. d \<notin> set reached) (map snd data))"
  proof -
    have "filter (\<lambda>d. d \<notin> set (reached @ [dep])) (map snd data)
          = filter (\<lambda>d. d \<noteq> dep) (filter (\<lambda>d. d \<notin> set reached) (map snd data))"
      by (induction data) auto
    moreover have "dep \<in> set (filter (\<lambda>d. d \<notin> set reached) (map snd data))"
      using mem nr by simp
    then have "length (filter (\<lambda>d. d \<noteq> dep) (filter (\<lambda>d. d \<notin> set reached) (map snd data)))
               < length (filter (\<lambda>d. d \<notin> set reached) (map snd data))"
      by (rule length_filter_less) simp
    ultimately show ?thesis
      by simp
  qed
  then show "((data, map name (children dep) @ todo, reached @ [dep]), (data, n # todo, reached))
        \<in> measures [\<lambda>(data, todo, reached). length (filter (\<lambda>d. d \<notin> set reached) (map snd data)),
                     \<lambda>(data, todo, reached). length todo]"
    by simp
qed

definition selectYarnDependencies :: "YarnDependency list \<Rightarrow> string list \<Rightarrow> error + YarnDependency list" where
  "selectYarnDependencies deps packagedDependencies =
     (case build_index deps [] of
        Inl e \<Rightarrow> Inl e
      | Inr data \<Rightarrow> visit data packagedDependencies [])"

text \<open>
  \<^verbatim>\<open>getYarnProductionDependencies\<close>, from the forest \<open>trees\<close> that
  \<^verbatim>\<open>yarn list --prod --json\<close> printed; the allow-list is \<open>None\<close> when the caller
  passed none.
\<close>

definition getYarnProductionDependencies ::
  "host \<Rightarrow> string \<Rightarrow> YarnTreeNode list \<Rightarrow> string list option \<Rightarrow> error + YarnDependency list"
where
  "getYarnProductionDependencies H cwd trees packagedDependencies =
     (let usingPackagedDependencies = (packagedDependencies \<noteq> None);
          result = filter_nonnull
            (map (\<lambda>tree. asYarnDependency H (path_join H [cwd, ''node_modules'']) tree
                           (\<not> usingPackagedDependencies)) trees)
      in case packagedDependencies of
           Some pd \<Rightarrow> selectYarnDependencies result pd
         | None \<Rightarrow> Inr result)"

fun flatten :: "YarnDependency \<Rightarrow> string list \<Rightarrow> string list" where
  "flatten (YarnDependency n p cs) result = fold flatten cs (set_add p result)"

definition getYarnDependencies ::
  "host \<Rightarrow> string \<Rightarrow> YarnTreeNode list \<Rightarrow> string list option \<Rightarrow> error + string list"
where
  "getYarnDependencies H cwd trees packagedDependencies =
     (case getYarnProductionDependencies H cwd trees packagedDependencies of
        Inl e \<Rightarrow> Inl e
      | Inr deps \<Rightarrow> Inr (fold flatten deps [cwd]))"

section \<open>The lockfile resolver\<close>

subsection \<open>The lock document\<close>

text \<open>
  \<open>registries\<close> holds the sections of the document keyed on a registry id, each with
  its entries in the order of \<^verbatim>\<open>Object.keys\<close>. The keys of an object are distinct,
  so a lookup in such a list finds the one entry of that key. What
  \<^verbatim>\<open>denoLock[registryId]\<close> is for any other \<open>registryId\<close> is the host's \<open>foreign\<close>.
\<close>

record DenoNpmEntry =
  integrity :: string
  dependencies :: "string list option"
  bin :: "bool option"

text \<open>A workspace member of the document: \<^verbatim>\<open>packageJson.dependencies\<close>.\<close>

record DenoWorkspace =
  packageJson_dependencies :: "string list option"

text \<open>
  \<^verbatim>\<open>DenoWorkspaceWithMeta\<close>: the member with the name of its \<^verbatim>\<open>package.json\<close>.
  \<^verbatim>\<open>workspaceDependencies\<close> is only read by \<^verbatim>\<open>?.forEach\<close>, so the absent field
  is the empty list.
\<close>

record DenoWorkspaceWithMeta =
  meta_name :: string
  meta_dependencies :: "string list option"
  workspaceDependencies :: "string list"

datatype DenoWorkspaceField =
    WorkspaceMembers "(string \<times> DenoWorkspace) list"
  | WorkspaceRoot DenoWorkspace
  | NoWorkspace

record DenoLock =
  lock_version :: string
  specifiers :: "(string \<times> string) list"
  workspace :: DenoWorkspaceField
  registries :: "(string \<times> (string \<times> DenoNpmEntry) list) list"

definition iterDenoWorkspaceMembers :: "DenoLock \<Rightarrow> (string \<times> DenoWorkspace) list" where
  "iterDenoWorkspaceMembers denoLock =
     (case workspace denoLock of
        WorkspaceMembers members \<Rightarrow> members
      | WorkspaceRoot w \<Rightarrow> [(''.'', w)]
      | NoWorkspace \<Rightarrow> [])"

subsection \<open>Names, versions and store paths\<close>

definition denoStoreId :: "string \<Rightarrow> string" where
  "denoStoreId packageAtVersion = replace_first CHR ''/'' CHR ''+'' packageAtVersion"

definition splitPackageAtVersion :: "string \<Rightarrow> error + (string \<times> string option)" where
  "splitPackageAtVersion packageAtVersion =
     (let colonOffset = indexOf packageAtVersion CHR '':'' 0;
          initialOffset = (if charAt packageAtVersion (colonOffset + 1) = ''@''
                           then colonOffset + 2 else colonOffset + 1);
          cutPoint = indexOf packageAtVersion CHR ''@'' (nat initialOffset)
      in if cutPoint = - 1 then Inr (packageAtVersion, None)
         else
           let packageName = take (nat cutPoint) packageAtVersion;
               version = drop (nat (cutPoint + 1)) packageAtVersion
           in if version = [] then Inl (InvalidPackageAtVersion packageAtVersion)
              else Inr (packageName, Some version))"

text \<open>
  The loop of \<^verbatim>\<open>splitMultiPackageAtVersion\<close>; the first argument counts the
  iterations that are left, \<^verbatim>\<open>maxIters - i\<close>.
\<close>

fun splitMulti_loop :: "nat \<Rightarrow> string \<Rightarrow> string list \<Rightarrow> error + string list" where
  "splitMulti_loop 0 packageAtVersion produced = Inl (ExceededMaxIters packageAtVersion)"
| "splitMulti_loop (Suc n) packageAtVersion produced =
     (case splitPackageAtVersion packageAtVersion of
        Inl e \<Rightarrow> Inl e
      | Inr (packageName, versionTail) \<Rightarrow>
          (case versionTail of
             None \<Rightarrow> Inr (produced @ [packageAtVersion])
           | Some v \<Rightarrow>
               if \<not> js_includes v CHR ''@'' then Inr (produced @ [packageAtVersion])
               else if indexOf v CHR ''_'' 0 = - 1 then Inl (InvalidMultiPackage packageAtVersion v)
               else
                 (case split2 v CHR ''_'' of
                    (version, Some rest) \<Rightarrow>
                      splitMulti_loop n rest (produced @ [packageName @ ''@'' @ version])
                  | (version, None) \<Rightarrow> Inl TypeError)))"

definition splitMultiPackageAtVersion :: "string \<Rightarrow> error + string list" where
  "splitMultiPackageAtVersion packageAtVersion =
     splitMulti_loop (length packageAtVersion) packageAtVersion []"

text \<open>
  An element of \<^verbatim>\<open>collectedDependencyPaths\<close>: a path, or the promise of
  \<^verbatim>\<open>realpath\<close> of a path, which \<^verbatim>\<open>Promise.all\<close> settles at the end.
\<close>

datatype collected_path = Path string | RealpathOf string

definition denoPath :: "host \<Rightarrow> string \<Rightarrow> string \<Rightarrow> collected_path" where
  "denoPath H denoLockPath packageAtVersion =
     RealpathOf (path_join H [denoLockPath, ''..'', ''node_modules'', ''.deno'',
                              denoStoreId packageAtVersion, ''node_modules''])"

fun promise_all :: "host \<Rightarrow> collected_path list \<Rightarrow> error + string list" where
  "promise_all H [] = Inr []"
| "promise_all H (Path p # rest) =
     (case promise_all H rest of Inl e \<Rightarrow> Inl e | Inr ps \<Rightarrow> Inr (p # ps))"
| "promise_all H (RealpathOf p # rest) =
     (case realpath H p of
        None \<Rightarrow> Inl (RealpathRejected p)
      | Some q \<Rightarrow> (case promise_all H rest of Inl e \<Rightarrow> Inl e | Inr ps \<Rightarrow> Inr (q # ps)))"

text \<open>\<^verbatim>\<open>xs.map(f)\<close> for an \<open>f\<close> that may throw: the first error ends the call.\<close>

fun map_throwing :: "('a \<Rightarrow> error + 'b) \<Rightarrow> 'a list \<Rightarrow> error + 'b list" where
  "map_throwing f [] = Inr []"
| "map_throwing f (x # xs) =
     (case f x of
        Inl e \<Rightarrow> Inl e
      | Inr y \<Rightarrow> (case map_throwing f xs of Inl e \<Rightarrow> Inl e | Inr ys \<Rightarrow> Inr (y # ys)))"

definition KNOWN_REGISTRIES :: "string list" where
  "KNOWN_REGISTRIES = [''npm'', ''jsr'']"

definition MAX_ITERS :: nat where
  "MAX_ITERS = 10000"

subsection \<open>Selection from an allow-list\<close>

text \<open>The body of the \<^verbatim>\<open>map\<close> that builds \<^verbatim>\<open>workspacesWithLocalDeps\<close>.\<close>

definition workspaceWithMeta ::
  "host \<Rightarrow> string \<Rightarrow> string \<times> DenoWorkspace \<Rightarrow> error + (string \<times> DenoWorkspaceWithMeta)"
where
  "workspaceWithMeta H denoLockPath entry =
     (case entry of (localPath, ws) \<Rightarrow>
        (case readPackageJson H (path_join H [denoLockPath, ''..'', localPath, ''package.json'']) of
           None \<Rightarrow> Inl (NoPackageJson localPath)
         | Some packageJson \<Rightarrow>
             (case pj_name packageJson of
                None \<Rightarrow> Inl (NoPackageName localPath)
              | Some nm \<Rightarrow>
                  if nm = [] then Inl (NoPackageName localPath)
                  else Inr (localPath,
                    \<lparr> meta_name = nm,
                      meta_dependencies = packageJson_dependencies ws,
                      workspaceDependencies =
                        (case pj_dependencies packageJson of
                           None \<Rightarrow> []
                         | Some deps \<Rightarrow>
                             map fst (filter (\<lambda>(depName, depVersion).
                                                startsWith depVersion ''workspace:'') deps)) \<rparr>))))"

text \<open>The seeding of \<^verbatim>\<open>registryDependencies\<close> from one section, key by key.\<close>

fun seed_section :: "string list \<Rightarrow> string \<Rightarrow> string list \<Rightarrow> string list \<Rightarrow> error + string list" where
  "seed_section packagedDependencies registry [] registryDependencies = Inr registryDependencies"
| "seed_section packagedDependencies registry (specifier # rest) registryDependencies =
     (let lastAtIndex = lastIndexOf specifier CHR ''@''
      in if lastAtIndex = - 1 then Inl (InvalidSpecifier specifier)
         else
           let packageName = take (nat lastAtIndex) specifier
           in seed_section packagedDependencies registry rest
                (if packageName \<in> set packagedDependencies
                 then set_add (registry @ '':'' @ specifier) registryDependencies
                 else registryDependencies))"

fun seed_registries :: "DenoLock \<Rightarrow> string list \<Rightarrow> string list \<Rightarrow> string list \<Rightarrow> error + string list" where
  "seed_registries denoLock packagedDependencies [] registryDependencies = Inr registryDependencies"
| "seed_registries denoLock packagedDependencies (registry # rest) registryDependencies =
     (case map_of (registries denoLock) registry of
        None \<Rightarrow> seed_registries denoLock packagedDependencies rest registryDependencies
      | Some entries \<Rightarrow>
          (case seed_section packagedDependencies registry (map fst entries) registryDependencies of
             Inl e \<Rightarrow> Inl e
           | Inr registryDependencies' \<Rightarrow>
               seed_registries denoLock packagedDependencies rest registryDependencies'))"

text \<open>
  The second \<^verbatim>\<open>forEach\<close> of the workspace loop: the registry dependencies of a
  member. A range that \<^verbatim>\<open>specifiers\<close> does not hold prints as \<^verbatim>\<open>undefined\<close>,
  unless it is the name of a member of \<^verbatim>\<open>Object.prototype\<close>, which is printed.
\<close>

fun add_registry_dependencies ::
  "host \<Rightarrow> DenoLock \<Rightarrow> string list \<Rightarrow> string list \<Rightarrow> error + string list"
where
  "add_registry_dependencies H denoLock [] registryDependencies = Inr registryDependencies"
| "add_registry_dependencies H denoLock (dependency # rest) registryDependencies =
     (let versionString = (case map_of (specifiers denoLock) dependency of
                             Some v \<Rightarrow> v
                           | None \<Rightarrow>
                               if dependency \<in> set Object_prototype then inherited_text H dependency
                               else ''undefined'')
      in case splitPackageAtVersion dependency of
           Inl e \<Rightarrow> Inl e
         | Inr (packageNameWithRegistry, _) \<Rightarrow>
             add_registry_dependencies H denoLock rest
               (set_add (packageNameWithRegistry @ ''@'' @ versionString) registryDependencies))"

text \<open>
  The loop over \<^verbatim>\<open>workspacesFrontier\<close>, from iteration \<open>i\<close>. An element of the
  frontier pairs a string with the member that \<^verbatim>\<open>workspacesWithLocalDeps\<close> holds under
  that string, \<open>None\<close> when it holds none: then the read gives \<^verbatim>\<open>undefined\<close> or a
  member of \<^verbatim>\<open>Object.prototype\<close>, and the read of \<^verbatim>\<open>packageJson.workspaceDependencies\<close>
  of either throws. It returns \<^verbatim>\<open>registryDependencies\<close> and
  \<^verbatim>\<open>collectedDependencyPaths\<close>.
\<close>

function drain_workspaces ::
  "host \<Rightarrow> string \<Rightarrow> DenoLock \<Rightarrow> (string \<times> DenoWorkspaceWithMeta) list \<Rightarrow> nat
   \<Rightarrow> (string \<times> DenoWorkspaceWithMeta option) list \<Rightarrow> string list \<Rightarrow> collected_path list
   \<Rightarrow> error + (string list \<times> collected_path list)"
where
  "drain_workspaces H denoLockPath denoLock workspacesWithLocalDeps i workspacesFrontier
       registryDependencies collected =
     (if workspacesFrontier \<noteq> [] \<and> i < MAX_ITERS then
        (case last workspacesFrontier of (localPath, popped) \<Rightarrow>
           (case popped of
              None \<Rightarrow> Inl TypeError
            | Some ws \<Rightarrow>
                (case add_registry_dependencies H denoLock
                        (case meta_dependencies ws of None \<Rightarrow> [] | Some ds \<Rightarrow> ds)
                        registryDependencies of
                   Inl e \<Rightarrow> Inl e
                 | Inr registryDependencies' \<Rightarrow>
                     drain_workspaces H denoLockPath denoLock workspacesWithLocalDeps (i + 1)
                       (butlast workspacesFrontier
                          @ map (\<lambda>dependency. (dependency, map_of workspacesWithLocalDeps dependency))
                              (workspaceDependencies ws))
                       registryDependencies'
                       (collected @ [Path (path_join H [denoLockPath, ''..'', localPath])]))))
      else Inr (registryDependencies, collected))"
  by pat_completeness auto
termination
  by (relation "measure (\<lambda>(H, denoLockPath, denoLock, ws, i, rest). MAX_ITERS - i)") auto

text \<open>The read \<^verbatim>\<open>denoLock[registryId]\<close>.\<close>

datatype registry_read = Section "(string \<times> DenoNpmEntry) list" | Foreign js_object | Missing

definition read_registry :: "host \<Rightarrow> DenoLock \<Rightarrow> string \<Rightarrow> registry_read" where
  "read_registry H denoLock registryId =
     (case map_of (registries denoLock) registryId of
        Some entries \<Rightarrow> Section entries
      | None \<Rightarrow> (case foreign H registryId of Some obj \<Rightarrow> Foreign obj | None \<Rightarrow> Missing))"

text \<open>
  The read \<^verbatim>\<open>denoLock[registryId][packageAtVersion]\<close>, given the first read. In a
  section it finds the entry of that key, or else the member of that name of
  \<^verbatim>\<open>Object.prototype\<close>, which has no dependencies.
\<close>

definition read_entry :: "registry_read \<Rightarrow> string \<Rightarrow> js_value" where
  "read_entry registry packageAtVersion =
     (case registry of
        Section entries \<Rightarrow>
          (case map_of entries packageAtVersion of
             Some packageMeta \<Rightarrow> Truthy (dependencies packageMeta)
           | None \<Rightarrow> if packageAtVersion \<in> set Object_prototype then Truthy None else Falsy)
      | Foreign obj \<Rightarrow> read_property obj packageAtVersion
      | Missing \<Rightarrow> Throws)"

text \<open>The keys that \<^verbatim>\<open>Object.keys(denoLock[registryId])\<close> gives; it throws on
  \<^verbatim>\<open>undefined\<close>.\<close>

definition registry_keys :: "registry_read \<Rightarrow> error + string list" where
  "registry_keys registry =
     (case registry of
        Section entries \<Rightarrow> Inr (map fst entries)
      | Foreign obj \<Rightarrow> Inr (own_keys obj)
      | Missing \<Rightarrow> Inl TypeError)"

text \<open>The inference of a version for a token that has none.\<close>

definition infer_version ::
  "host \<Rightarrow> DenoLock \<Rightarrow> string \<Rightarrow> string \<Rightarrow> string option \<Rightarrow> string \<Rightarrow> error + string"
where
  "infer_version H denoLock registryId packageName version packageAtVersion =
     (case version of
        Some v \<Rightarrow> Inr packageAtVersion
      | None \<Rightarrow>
          (case registry_keys (read_registry H denoLock registryId) of
             Inl e \<Rightarrow> Inl e
           | Inr keys \<Rightarrow>
               (case find (\<lambda>key. startsWith key (packageName @ ''@'')) keys of
                  Some key \<Rightarrow> Inr key
                | None \<Rightarrow> Inr packageAtVersion)))"

text \<open>One dependency of an entry: the rebound name is dropped, the registry is added, and
  the token is queued unless it was seen.\<close>

definition enqueue_dependency :: "string \<Rightarrow> string \<Rightarrow> string list \<times> string list \<Rightarrow> string list \<times> string list" where
  "enqueue_dependency registryId dependency state =
     (case state of (frontier, registryDependencies) \<Rightarrow>
        (let colonPoint = indexOf dependency CHR '':'' 0;
             atPoint = indexOf dependency CHR ''@'' 1;
             dependency' = (if atPoint \<noteq> - 1 \<and> colonPoint \<noteq> - 1 \<and> atPoint < colonPoint
                            then drop (nat (atPoint + 1)) dependency else dependency);
             dependencyString = (if js_includes dependency' CHR '':'' then dependency'
                                 else registryId @ '':'' @ dependency')
         in if dependencyString \<in> set registryDependencies then (frontier, registryDependencies)
            else (frontier @ [dependencyString], registryDependencies @ [dependencyString])))"

text \<open>The body of the loop over \<^verbatim>\<open>frontier\<close>, for the token \<open>versionString\<close> that
  was popped.\<close>

definition registry_step ::
  "host \<Rightarrow> string \<Rightarrow> DenoLock \<Rightarrow> string \<Rightarrow> string list \<Rightarrow> string list \<Rightarrow> collected_path list
   \<Rightarrow> error + (string list \<times> string list \<times> collected_path list)"
where
  "registry_step H denoLockPath denoLock versionString frontier registryDependencies collected =
     (case split2 versionString CHR '':'' of
        (registryId, None) \<Rightarrow> Inl (InvalidVersionString versionString)
      | (registryId, Some packageAtVersion0) \<Rightarrow>
          if registryId = [] \<or> packageAtVersion0 = [] then Inl (InvalidVersionString versionString)
          else
            (case splitPackageAtVersion packageAtVersion0 of
               Inl e \<Rightarrow> Inl e
             | Inr (packageName, version) \<Rightarrow>
                 (case infer_version H denoLock registryId packageName version packageAtVersion0 of
                    Inl e \<Rightarrow> Inl e
                  | Inr packageAtVersion \<Rightarrow>
                      (case splitMultiPackageAtVersion packageAtVersion of
                         Inl e \<Rightarrow> Inl e
                       | Inr parts \<Rightarrow>
                           (case read_registry H denoLock registryId of
                              Missing \<Rightarrow> Inl (CouldNotFindRegistry registryId)
                            | registry \<Rightarrow>
                                (case read_entry registry packageAtVersion of
                                   Throws \<Rightarrow> Inl TypeError
                                 | Falsy \<Rightarrow> Inl (CouldNotFindPackage packageAtVersion registryId)
                                 | Truthy deps \<Rightarrow>
                                     (case fold (enqueue_dependency registryId)
                                             (case deps of None \<Rightarrow> [] | Some ds \<Rightarrow> ds)
                                             (frontier, registryDependencies) of
                                        (frontier', registryDependencies') \<Rightarrow>
                                          Inr (frontier', registryDependencies',
                                               collected @ map (denoPath H denoLockPath) parts))))))))"

function drain_registry ::
  "host \<Rightarrow> string \<Rightarrow> DenoLock \<Rightarrow> nat \<Rightarrow> string list \<Rightarrow> string list \<Rightarrow> collected_path list
   \<Rightarrow> error + collected_path list"
where
  "drain_registry H denoLockPath denoLock i frontier registryDependencies collected =
     (if frontier \<noteq> [] \<and> i < MAX_ITERS then
        (case registry_step H denoLockPath denoLock (last frontier) (butlast frontier)
                registryDependencies collected of
           Inl e \<Rightarrow> Inl e
         | Inr (frontier', registryDependencies', collected') \<Rightarrow>
             drain_registry H denoLockPath denoLock (i + 1) frontier' registryDependencies' collected')
      else Inr collected)"
  by pat_completeness auto
termination
  by (relation "measure (\<lambda>(H, denoLockPath, denoLock, i, rest). MAX_ITERS - i)") auto

definition selectDenoDependencies :: "host \<Rightarrow> string \<Rightarrow> DenoLock \<Rightarrow> string list \<Rightarrow> error + string list" where
  "selectDenoDependencies H denoLockPath denoLock packagedDependencies =
     (case map_throwing (workspaceWithMeta H denoLockPath) (iterDenoWorkspaceMembers denoLock) of
        Inl e \<Rightarrow> Inl e
      | Inr workspacesWithLocalDeps \<Rightarrow>
          (let matchedLocalWorkspaces =
                 filter (\<lambda>(localPath, ws). meta_name ws \<in> set packagedDependencies)
                   workspacesWithLocalDeps
           in case seed_registries denoLock packagedDependencies KNOWN_REGISTRIES [] of
                Inl e \<Rightarrow> Inl e
              | Inr registryDependencies \<Rightarrow>
                  (case drain_workspaces H denoLockPath denoLock workspacesWithLocalDeps 0
                          (map (\<lambda>(localPath, ws). (localPath, Some ws)) matchedLocalWorkspaces)
                          registryDependencies [] of
                     Inl e \<Rightarrow> Inl e
                   | Inr (registryDependencies', collected) \<Rightarrow>
                       (case drain_registry H denoLockPath denoLock 0 registryDependencies'
                               registryDependencies' collected of
                          Inl e \<Rightarrow> Inl e
                        | Inr collected' \<Rightarrow> promise_all H collected'))))"

subsection \<open>Enumeration\<close>

text \<open>
  \<open>found\<close> is the lock file that \<^verbatim>\<open>findDenoLock\<close> finds from \<open>cwd\<close>, with its
  parsed content; \<open>None\<close> when there is none.
\<close>

definition getDenoDependencies ::
  "host \<Rightarrow> (string \<times> DenoLock) option \<Rightarrow> string \<Rightarrow> string list option \<Rightarrow> error + string list"
where
  "getDenoDependencies H found cwd packagedDependencies =
     (case found of
        None \<Rightarrow> Inl NoDenoLock
      | Some (denoLockPath, denoLock) \<Rightarrow>
          (case (case packagedDependencies of
                   None \<Rightarrow>
                     (case map_of (registries denoLock) ''npm'' of
                        None \<Rightarrow> Inl TypeError
                      | Some entries \<Rightarrow>
                          (case map_throwing splitMultiPackageAtVersion (map fst entries) of
                             Inl e \<Rightarrow> Inl e
                           | Inr parts \<Rightarrow>
                               promise_all H (map (denoPath H denoLockPath) (concat parts))))
                 | Some pd \<Rightarrow> selectDenoDependencies H denoLockPath denoLock pd) of
             Inl e \<Rightarrow> Inl e
           | Inr absPathResults \<Rightarrow>
               Inr (new_Set (if cwd \<in> set absPathResults then absPathResults
                             else absPathResults @ [cwd]))))"

text \<open>The two loops are unfolded by hand, one iteration at a time.\<close>

declare drain_workspaces.simps [simp del]
declare drain_registry.simps [simp del]

section \<open>Notions of the specification\<close>

text \<open>The nodes of a subtree, the root first.\<close>

fun dep_nodes :: "YarnDependency \<Rightarrow> YarnDependency list" where
  "dep_nodes (YarnDependency n p cs) = YarnDependency n p cs # concat (map dep_nodes cs)"

fun raw_nodes :: "YarnTreeNode \<Rightarrow> YarnTreeNode list" where
  "raw_nodes (YarnTreeNode l ks) = YarnTreeNode l ks # concat (map raw_nodes ks)"

text \<open>The name that normalisation gives a raw label.\<close>

definition cleaned_name :: "host \<Rightarrow> string \<Rightarrow> string" where
  "cleaned_name H label = (case parseSemver H label of Some n \<Rightarrow> n | None \<Rightarrow> strip_version label)"




text \<open>
  The names that the walk from the allow-list \<open>L\<close> reaches over the top-level nodes
  \<open>deps\<close>: the names of \<open>L\<close>, and the names of the children of the top-level node that
  carries a reached name.
\<close>

inductive reached_name :: "YarnDependency list \<Rightarrow> string list \<Rightarrow> string \<Rightarrow> bool"
  for deps :: "YarnDependency list" and L :: "string list"
where
  seed: "n \<in> set L \<Longrightarrow> reached_name deps L n"
| child: "reached_name deps L n \<Longrightarrow> d \<in> set deps \<Longrightarrow> name d = n \<Longrightarrow> c \<in> set (children d)
          \<Longrightarrow> reached_name deps L (name c)"

code_pred reached_name .

text \<open>\<open>data\<close> is the index of \<open>deps\<close>; the children of the nodes of \<open>reached\<close> are
  pending in \<open>todo\<close> or resolved in \<open>reached\<close>.\<close>

definition indexes :: "(string \<times> YarnDependency) list \<Rightarrow> YarnDependency list \<Rightarrow> bool" where
  "indexes data deps = (\<forall>n d. map_of data n = Some d \<longleftrightarrow> d \<in> set deps \<and> name d = n)"

definition closed_upto :: "(string \<times> YarnDependency) list \<Rightarrow> string list \<Rightarrow> YarnDependency list \<Rightarrow> bool" where
  "closed_upto data todo reached =
     (\<forall>d\<in>set reached. \<forall>c\<in>set (children d).
        name c \<in> set todo \<or> (\<exists>d'. map_of data (name c) = Some d' \<and> d' \<in> set reached))"

section \<open>Examples\<close>

text \<open>
  A host for the examples. Paths are joined with \<open>/\<close>, a segment \<open>..\<close> dropping the
  last component and a segment \<open>.\<close> nothing; every path is its own real path; a label
  parses when a digit, \<open>^\<close> or \<open>~\<close> follows its last \<open>@\<close>; the files are the
  \<^verbatim>\<open>package.json\<close> files on disk, by path. Of the values that are no sections it
  knows the members of \<^verbatim>\<open>Object.prototype\<close>, as objects without keys whose properties
  are again those members.
\<close>

fun join_onto :: "string \<Rightarrow> string list \<Rightarrow> string" where
  "join_onto acc [] = acc"
| "join_onto acc (seg # segs) =
     join_onto (if seg = ''..'' then take (nat (lastIndexOf acc CHR ''/'')) acc
                else if seg = ''.'' then acc
                else acc @ ''/'' @ seg) segs"

definition example_join :: "string list \<Rightarrow> string" where
  "example_join xs = (case xs of [] \<Rightarrow> ''.'' | x # rest \<Rightarrow> join_onto x rest)"

definition example_parse :: "string \<Rightarrow> string option" where
  "example_parse s =
     (let i = lastIndexOf s CHR ''@''
      in if i \<le> 0 then None
         else case drop (nat i + 1) s of
                [] \<Rightarrow> None
              | c # _ \<Rightarrow> if c \<in> set ''0123456789^~'' then Some (take (nat i) s) else None)"

definition example_foreign :: "string \<Rightarrow> js_object option" where
  "example_foreign k =
     (if k \<in> set Object_prototype
      then Some \<lparr> own_keys = [],
                  read_property = (\<lambda>p. if p \<in> set Object_prototype then Truthy None else Falsy) \<rparr>
      else None)"

definition files_host :: "(string \<times> PackageJson) list \<Rightarrow> host" where
  "files_host files = \<lparr> path_join = example_join, parseSemver = example_parse,
                     realpath = Some, readPackageJson = map_of files,
                     foreign = example_foreign,
                     inherited_text = (\<lambda>k. ''function '' @ k @ ''() { [native code] }'') \<rparr>"

definition example_host :: host where
  "example_host = files_host []"

definition example_forest :: "YarnTreeNode list" where
  "example_forest =
     [YarnTreeNode ''a@1.0.0'' [YarnTreeNode ''b@2.0.0'' [YarnTreeNode ''x@3.0.0'' []]],
      YarnTreeNode ''b@1.0.0'' [],
      YarnTreeNode ''c@1.0.0'' []]"

text \<open>The child \<open>b\<close> of \<open>a\<close> has a child \<open>x\<close>; the top-level \<open>b\<close> has none.\<close>

definition example_deps :: "YarnDependency list" where
  "example_deps =
     [YarnDependency ''a'' ''/p/node_modules/a''
        [YarnDependency ''b'' ''/p/node_modules/a/node_modules/b''
           [YarnDependency ''x'' ''/p/node_modules/a/node_modules/b/node_modules/x'' []]],
      YarnDependency ''b'' ''/p/node_modules/b'' []]"

text \<open>The child \<open>c\<close> of \<open>a\<close> is no top-level node.\<close>

definition example_deps_missing :: "YarnDependency list" where
  "example_deps_missing =
     [YarnDependency ''a'' ''/p/node_modules/a''
        [YarnDependency ''c'' ''/p/node_modules/a/node_modules/c'' []]]"

definition left_pad_forest :: "YarnTreeNode list" where
  "left_pad_forest =
     [YarnTreeNode ''app-lib@1.0.0''
        [YarnTreeNode ''left-pad@^1.2.3'' [YarnTreeNode ''dep@1.0.0'' []],
         YarnTreeNode ''left-pad@1.2.3'' []]]"


text \<open>Entries and members of a lock document, by their dependencies.\<close>

definition entry :: "string list option \<Rightarrow> DenoNpmEntry" where
  "entry deps = \<lparr> integrity = ''sha512'', dependencies = deps, bin = None \<rparr>"

definition member :: "string list option \<Rightarrow> DenoWorkspace" where
  "member deps = \<lparr> packageJson_dependencies = deps \<rparr>"

text \<open>A document with one entry in each of the two known registries.\<close>

definition lock_npm_jsr :: DenoLock where
  "lock_npm_jsr = \<lparr> lock_version = ''5'', specifiers = [(''npm:lodash@^4.0.0'', ''4.17.21'')],
       workspace = NoWorkspace,
       registries = [(''npm'', [(''lodash@4.17.21'', entry None)]),
                     (''jsr'', [(''@std/path@1.0.0'', entry None)])] \<rparr>"

text \<open>A project that is its own single workspace member.\<close>

definition root_files :: "(string \<times> PackageJson) list" where
  "root_files =
     [(''/proj/package.json'', \<lparr> pj_name = Some ''app'', pj_dependencies = Some [(''lodash'', ''^4.0.0'')] \<rparr>)]"

definition lock_root :: DenoLock where
  "lock_root = \<lparr> lock_version = ''5'', specifiers = [(''npm:lodash@^4.0.0'', ''4.17.21'')],
       workspace = WorkspaceRoot (member (Some [''npm:lodash@^4.0.0''])),
       registries = [(''npm'', [(''lodash@4.17.21'', entry None)])] \<rparr>"

text \<open>
  Three members whose names are not their directories: \<open>app\<close> lives in \<open>x\<close> and
  depends on \<open>b\<close>, which lives in \<open>a\<close>; the member in \<open>b\<close> is called \<open>c\<close>.
\<close>

definition renamed_files :: "(string \<times> PackageJson) list" where
  "renamed_files =
     [(''/proj/x/package.json'', \<lparr> pj_name = Some ''app'', pj_dependencies = Some [(''b'', ''workspace:*'')] \<rparr>),
      (''/proj/a/package.json'', \<lparr> pj_name = Some ''b'', pj_dependencies = None \<rparr>),
      (''/proj/b/package.json'', \<lparr> pj_name = Some ''c'', pj_dependencies = None \<rparr>)]"

definition lock_renamed :: DenoLock where
  "lock_renamed = \<lparr> lock_version = ''5'', specifiers = [],
       workspace = WorkspaceMembers [(''x'', member None), (''a'', member None), (''b'', member None)],
       registries = [] \<rparr>"

text \<open>The usual layout: the member \<open>app\<close> in \<open>packages/app\<close> depends on \<open>lib\<close>
  in \<open>packages/lib\<close>.\<close>

definition packages_files :: "(string \<times> PackageJson) list" where
  "packages_files =
     [(''/proj/packages/app/package.json'', \<lparr> pj_name = Some ''app'', pj_dependencies = Some [(''lib'', ''workspace:*'')] \<rparr>),
      (''/proj/packages/lib/package.json'', \<lparr> pj_name = Some ''lib'', pj_dependencies = None \<rparr>)]"

definition lock_packages :: DenoLock where
  "lock_packages = \<lparr> lock_version = ''5'', specifiers = [],
       workspace = WorkspaceMembers [(''packages/app'', member None), (''packages/lib'', member None)],
       registries = [] \<rparr>"

text \<open>
  A cycle: \<open>a\<close> depends on \<open>c\<close> and \<open>b\<close>, and \<open>b\<close> on \<open>a\<close>; every member
  lives in the directory of its name.
\<close>

definition cyclic_files :: "(string \<times> PackageJson) list" where
  "cyclic_files =
     [(''/proj/a/package.json'',
         \<lparr> pj_name = Some ''a'', pj_dependencies = Some [(''c'', ''workspace:*''), (''b'', ''workspace:*'')] \<rparr>),
      (''/proj/b/package.json'',
         \<lparr> pj_name = Some ''b'', pj_dependencies = Some [(''a'', ''workspace:*'')] \<rparr>),
      (''/proj/c/package.json'', \<lparr> pj_name = Some ''c'', pj_dependencies = None \<rparr>)]"

definition lock_cyclic :: DenoLock where
  "lock_cyclic = \<lparr> lock_version = ''5'', specifiers = [],
       workspace = WorkspaceMembers [(''a'', member None), (''b'', member None), (''c'', member None)],
       registries = [] \<rparr>"

definition member_a :: DenoWorkspaceWithMeta where
  "member_a = \<lparr> meta_name = ''a'', meta_dependencies = None, workspaceDependencies = [''c'', ''b''] \<rparr>"

definition member_b :: DenoWorkspaceWithMeta where
  "member_b = \<lparr> meta_name = ''b'', meta_dependencies = None, workspaceDependencies = [''a''] \<rparr>"

definition member_c :: DenoWorkspaceWithMeta where
  "member_c = \<lparr> meta_name = ''c'', meta_dependencies = None, workspaceDependencies = [] \<rparr>"

definition cyclic_catalog :: "(string \<times> DenoWorkspaceWithMeta) list" where
  "cyclic_catalog = [(''a'', member_a), (''b'', member_b), (''c'', member_c)]"


text \<open>An entry \<open>a\<close> that depends on \<open>constructor\<close>, of which the registry holds
  nothing.\<close>

definition lock_inherited_name :: DenoLock where
  "lock_inherited_name = \<lparr> lock_version = ''5'', specifiers = [],
       workspace = NoWorkspace,
       registries = [(''npm'', [(''a@1.0.0'', entry (Some [''constructor'']))])] \<rparr>"


section \<open>Sets as lists\<close>

lemma set_set_add: "set (set_add x xs) = insert x (set xs)"
  by (auto simp: set_add_def)

lemma distinct_set_add: "distinct xs \<Longrightarrow> distinct (set_add x xs)"
  by (simp add: set_add_def)

lemma new_Set_props: "set (fold set_add xs ys) = set ys \<union> set xs \<and> (distinct ys \<longrightarrow> distinct (fold set_add xs ys))"
  by (induction xs arbitrary: ys) (auto simp: set_set_add distinct_set_add)

section \<open>The tree resolver: flattening and the index\<close>

lemma self_in_dep_nodes: "d \<in> set (dep_nodes d)"
  by (cases d) simp

lemma flatten_props:
  "set (flatten d result) = set result \<union> path ` set (dep_nodes d)
   \<and> (distinct result \<longrightarrow> distinct (flatten d result))"
proof (induction d arbitrary: result)
  case (YarnDependency n p cs)
  have "set (fold flatten ds r) = set r \<union> path ` (\<Union>c\<in>set ds. set (dep_nodes c))
        \<and> (distinct r \<longrightarrow> distinct (fold flatten ds r))"
    if "set ds \<subseteq> set cs" for ds r
    using that
  proof (induction ds arbitrary: r)
    case Nil
    then show ?case by simp
  next
    case (Cons a ds)
    then have a: "a \<in> set cs" and ds: "set ds \<subseteq> set cs" by auto
    show ?case
      using YarnDependency.IH[OF a, of r] Cons.IH[OF ds, of "flatten a r"]
      by (auto simp: image_Un)
  qed
  from this[of cs "set_add p result"] show ?case
    by (auto simp: set_set_add distinct_set_add)
qed

lemma fold_flatten_props:
  "set (fold flatten ds r) = set r \<union> path ` (\<Union>c\<in>set ds. set (dep_nodes c))
        \<and> (distinct r \<longrightarrow> distinct (fold flatten ds r))"
proof (induction ds arbitrary: r)
  case Nil
  then show ?case by simp
next
  case (Cons a ds)
  show ?case
    using flatten_props[of a r] Cons.IH[of "flatten a r"]
    by (auto simp: image_Un)
qed

lemma build_index_Inr:
  "build_index deps data0 = Inr data \<Longrightarrow>
     data = data0 @ map (\<lambda>d. (name d, d)) deps \<and> (distinct (map fst data0) \<longrightarrow> distinct (map fst data))"
proof (induction deps arbitrary: data0)
  case Nil
  then show ?case by simp
next
  case (Cons a deps)
  from Cons.prems have nd: "map_of data0 (name a) = None"
    and r: "build_index deps (data0 @ [(name a, a)]) = Inr data"
    by (auto split: if_splits)
  from nd have "name a \<notin> fst ` set data0"
    by (simp add: map_of_eq_None_iff)
  with Cons.IH[OF r] show ?case by fastforce
qed

lemma build_index_Inl:
  "build_index deps data0 = Inl e \<Longrightarrow>
     \<exists>n. e = DependencySeenMoreThanOnce n \<and> \<not> distinct (map fst data0 @ map name deps)"
proof (induction deps arbitrary: data0)
  case Nil
  then show ?case by simp
next
  case (Cons a deps)
  show ?case
  proof (cases "map_of data0 (name a) = None")
    case True
    with Cons.prems have "build_index deps (data0 @ [(name a, a)]) = Inl e" by simp
    from Cons.IH[OF this] show ?thesis by auto
  next
    case False
    then have "name a \<in> fst ` set data0"
      by (simp add: map_of_eq_None_iff)
    with False Cons.prems show ?thesis by auto
  qed
qed

lemma index_lookup:
  assumes "build_index deps [] = Inr data"
  shows "distinct (map name deps)" and "map_of data n = Some d \<longleftrightarrow> d \<in> set deps \<and> name d = n"
proof -
  from build_index_Inr[OF assms] have d: "data = map (\<lambda>d. (name d, d)) deps" and dist: "distinct (map fst data)"
    by auto
  from d dist show "distinct (map name deps)" by (simp add: comp_def)
  show "map_of data n = Some d \<longleftrightarrow> d \<in> set deps \<and> name d = n"
  proof
    assume "map_of data n = Some d"
    then have "(n, d) \<in> set data" by (rule map_of_SomeD)
    with d show "d \<in> set deps \<and> name d = n" by auto
  next
    assume "d \<in> set deps \<and> name d = n"
    then have "(n, d) \<in> set data" using d by auto
    with dist show "map_of data n = Some d" by simp
  qed
qed

lemma build_index_ok:
  assumes "build_index deps [] = Inr data"
  shows "indexes data deps"
  using index_lookup(2)[OF assms] by (simp add: indexes_def)

lemma build_index_distinct:
  assumes "distinct (map name deps)"
  shows "\<exists>data. build_index deps [] = Inr data"
proof (cases "build_index deps []")
  case (Inl e)
  from build_index_Inl[OF this] assms show ?thesis by simp
next
  case (Inr data)
  then show ?thesis by blast
qed

lemma index_find_Inr: "index_find data n = Inr d \<longleftrightarrow> map_of data n = Some d"
  by (simp add: index_find_def split: option.splits)

lemma index_find_Inl: "index_find data n = Inl e \<longleftrightarrow> map_of data n = None \<and> e = CouldNotFindDependency n"
  by (auto simp: index_find_def split: option.splits)

section \<open>The tree resolver: the walk\<close>

lemma visit_Inr_contains:
  "visit data todo reached = Inr res \<Longrightarrow>
     set reached \<subseteq> set res \<and> (\<forall>n\<in>set todo. \<exists>d. map_of data n = Some d \<and> d \<in> set res)"
proof (induction data todo reached rule: visit.induct)
  case (1 data reached)
  then show ?case by simp
next
  case (2 data n todo reached)
  from "2.prems" obtain dep where f: "index_find data n = Inr dep"
    by (cases "index_find data n") auto
  then have m: "map_of data n = Some dep" by (simp add: index_find_Inr)
  show ?case
  proof (cases "dep \<in> set reached")
    case True
    with "2.prems" f have "visit data todo reached = Inr res" by simp
    from "2.IH"(1)[OF f True this] m True show ?thesis by auto
  next
    case False
    with "2.prems" f have "visit data (map name (children dep) @ todo) (reached @ [dep]) = Inr res"
      by simp
    from "2.IH"(2)[OF f False this] m show ?thesis by auto
  qed
qed

lemma visit_Inr_closed:
  "visit data todo reached = Inr res \<Longrightarrow> closed_upto data todo reached \<Longrightarrow> closed_upto data [] res"
proof (induction data todo reached rule: visit.induct)
  case (1 data reached)
  then show ?case by simp
next
  case (2 data n todo reached)
  from "2.prems" obtain dep where f: "index_find data n = Inr dep"
    by (cases "index_find data n") auto
  then have m: "map_of data n = Some dep" by (simp add: index_find_Inr)
  show ?case
  proof (cases "dep \<in> set reached")
    case True
    with "2.prems" f have v: "visit data todo reached = Inr res" by simp
    have "closed_upto data todo reached"
      using "2.prems"(2) m True unfolding closed_upto_def by (metis set_ConsD)
    from "2.IH"(1)[OF f True v this] show ?thesis .
  next
    case False
    with "2.prems" f have v: "visit data (map name (children dep) @ todo) (reached @ [dep]) = Inr res"
      by simp
    have "closed_upto data (map name (children dep) @ todo) (reached @ [dep])"
      unfolding closed_upto_def
    proof (intro ballI)
      fix d c assume d: "d \<in> set (reached @ [dep])" and c: "c \<in> set (children d)"
      show "name c \<in> set (map name (children dep) @ todo) \<or>
            (\<exists>d'. map_of data (name c) = Some d' \<and> d' \<in> set (reached @ [dep]))"
      proof (cases "d = dep")
        case True
        with c show ?thesis by simp
      next
        case False
        with d have "d \<in> set reached" by simp
        with "2.prems"(2) c have "name c \<in> set (n # todo) \<or>
            (\<exists>d'. map_of data (name c) = Some d' \<and> d' \<in> set reached)"
          unfolding closed_upto_def by blast
        with m show ?thesis by auto
      qed
    qed
    from "2.IH"(2)[OF f False v this] show ?thesis .
  qed
qed

lemma reached_name_mono:
  "reached_name deps L n \<Longrightarrow> (\<And>x. x \<in> set L \<Longrightarrow> reached_name deps L' x) \<Longrightarrow> reached_name deps L' n"
  by (induction rule: reached_name.induct) (auto intro: reached_name.intros)

lemma visit_Inl_reached:
  "visit data todo reached = Inl e \<Longrightarrow> indexes data deps \<Longrightarrow>
     \<exists>n. e = CouldNotFindDependency n \<and> map_of data n = None \<and> reached_name deps todo n"
proof (induction data todo reached rule: visit.induct)
  case (1 data reached)
  then show ?case by simp
next
  case (2 data n todo reached)
  show ?case
  proof (cases "index_find data n")
    case (Inl e')
    with "2.prems" have "e = e'" by simp
    with Inl show ?thesis
      by (auto simp: index_find_Inl intro: reached_name.seed)
  next
    case (Inr dep)
    then have m: "map_of data n = Some dep" by (simp add: index_find_Inr)
    with "2.prems"(2) have dep: "dep \<in> set deps" "name dep = n"
      by (auto simp: indexes_def)
    show ?thesis
    proof (cases "dep \<in> set reached")
      case True
      with "2.prems" Inr have "visit data todo reached = Inl e" by simp
      from "2.IH"(1)[OF Inr True this "2.prems"(2)]
      obtain k where k: "e = CouldNotFindDependency k" "map_of data k = None" "reached_name deps todo k"
        by blast
      from k(3) have "reached_name deps (n # todo) k"
        by (rule reached_name_mono) (auto intro: reached_name.seed)
      with k show ?thesis by blast
    next
      case False
      with "2.prems" Inr have "visit data (map name (children dep) @ todo) (reached @ [dep]) = Inl e"
        by simp
      from "2.IH"(2)[OF Inr False this "2.prems"(2)]
      obtain k where k: "e = CouldNotFindDependency k" "map_of data k = None"
        "reached_name deps (map name (children dep) @ todo) k"
        by blast
      from k(3) have "reached_name deps (n # todo) k"
      proof (rule reached_name_mono)
        fix x assume "x \<in> set (map name (children dep) @ todo)"
        then consider c where "c \<in> set (children dep)" "x = name c" | "x \<in> set todo" by auto
        then show "reached_name deps (n # todo) x"
        proof cases
          case 1
          have "reached_name deps (n # todo) n" by (simp add: reached_name.seed)
          from reached_name.child[OF this dep(1) dep(2) 1(1)] 1(2) show ?thesis by simp
        next
          case 2
          then show ?thesis by (simp add: reached_name.seed)
        qed
      qed
      with k show ?thesis by blast
    qed
  qed
qed

lemma visit_Inr_reached:
  "visit data todo reached = Inr res \<Longrightarrow> indexes data deps \<Longrightarrow>
     \<forall>d\<in>set res. d \<in> set reached \<or> (d \<in> set deps \<and> reached_name deps todo (name d))"
proof (induction data todo reached rule: visit.induct)
  case (1 data reached)
  then show ?case by simp
next
  case (2 data n todo reached)
  from "2.prems" obtain dep where f: "index_find data n = Inr dep"
    by (cases "index_find data n") auto
  then have m: "map_of data n = Some dep" by (simp add: index_find_Inr)
  with "2.prems"(2) have dep: "dep \<in> set deps" "name dep = n"
    by (auto simp: indexes_def)
  have up: "reached_name deps (n # todo) k" if "reached_name deps todo k" for k
    using that by (rule reached_name_mono) (auto intro: reached_name.seed)
  have up2: "reached_name deps (n # todo) k" if "reached_name deps (map name (children dep) @ todo) k" for k
    using that
  proof (rule reached_name_mono)
    fix x assume "x \<in> set (map name (children dep) @ todo)"
    then consider c where "c \<in> set (children dep)" "x = name c" | "x \<in> set todo" by auto
    then show "reached_name deps (n # todo) x"
    proof cases
      case 1
      have "reached_name deps (n # todo) n" by (simp add: reached_name.seed)
      from reached_name.child[OF this dep(1) dep(2) 1(1)] 1(2) show ?thesis by simp
    next
      case 2
      then show ?thesis by (simp add: reached_name.seed)
    qed
  qed
  show ?case
  proof (cases "dep \<in> set reached")
    case True
    with "2.prems" f have v: "visit data todo reached = Inr res" by simp
    from "2.IH"(1)[OF f True v "2.prems"(2)] up show ?thesis by blast
  next
    case False
    with "2.prems" f have v: "visit data (map name (children dep) @ todo) (reached @ [dep]) = Inr res"
      by simp
    have "reached_name deps (n # todo) (name dep)"
      using dep(2) by (simp add: reached_name.seed)
    with "2.IH"(2)[OF f False v "2.prems"(2)] up2 dep(1) show ?thesis by auto
  qed
qed

lemma visit_complete:
  assumes v: "visit data L [] = Inr res" and ix: "indexes data deps" and r: "reached_name deps L n"
  shows "\<exists>d. map_of data n = Some d \<and> d \<in> set res"
  using r
proof (induction rule: reached_name.induct)
  case (seed n)
  with visit_Inr_contains[OF v] show ?case by blast
next
  case (child n d c)
  then obtain d' where d': "map_of data n = Some d'" "d' \<in> set res" by blast
  from child ix have "map_of data n = Some d" by (simp add: indexes_def)
  with d' have "d \<in> set res" by simp
  moreover have "closed_upto data [] res"
    by (rule visit_Inr_closed[OF v]) (simp add: closed_upto_def)
  ultimately show ?case
    using child.hyps(4) unfolding closed_upto_def by auto
qed

section \<open>The tree resolver: normalisation\<close>


lemma filter_nonnull_map:
  "filter_nonnull (map f xs) = map (\<lambda>x. the (f x)) (filter (\<lambda>x. f x \<noteq> None) xs)"
  by (induction xs) (auto simp: filter_nonnull_def)

lemma asYarn_unpruned:
  "\<exists>d. asYarnDependency H prefix t False = Some d
       \<and> map name (dep_nodes d) = map (\<lambda>r. cleaned_name H (raw_name r)) (raw_nodes t)"
proof (induction t arbitrary: prefix)
  case (YarnTreeNode label kids)
  let ?nm = "cleaned_name H label"
  let ?f = "\<lambda>child. asYarnDependency H (path_join H [prefix, ?nm, ''node_modules'']) child False"
  have all: "\<forall>k\<in>set kids. \<exists>d. ?f k = Some d
       \<and> map name (dep_nodes d) = map (\<lambda>r. cleaned_name H (raw_name r)) (raw_nodes k)"
    using YarnTreeNode.IH by blast
  then have "filter (\<lambda>k. ?f k \<noteq> None) kids = kids"
    by (auto simp: filter_id_conv)
  then have kids: "filter_nonnull (map ?f kids) = map (\<lambda>k. the (?f k)) kids"
    by (simp add: filter_nonnull_map)
  have eq: "asYarnDependency H prefix (YarnTreeNode label kids) False
        = Some (YarnDependency ?nm (path_join H [prefix, ?nm]) (map (\<lambda>k. the (?f k)) kids))"
    using kids by (simp add: cleaned_name_def Let_def)
  have "concat (map dep_nodes (map (\<lambda>k. the (?f k)) kids)) = concat (map (\<lambda>k. dep_nodes (the (?f k))) kids)"
    by (simp add: comp_def)
  have nm: "map name (concat (map (\<lambda>k. dep_nodes (the (?f k))) ks))
        = map (\<lambda>r. cleaned_name H (raw_name r)) (concat (map raw_nodes ks))"
    if "set ks \<subseteq> set kids" for ks
    using that
  proof (induction ks)
    case Nil
    then show ?case by simp
  next
    case (Cons k ks)
    then have "k \<in> set kids" by simp
    with all obtain d where "?f k = Some d"
      "map name (dep_nodes d) = map (\<lambda>r. cleaned_name H (raw_name r)) (raw_nodes k)" by blast
    with Cons show ?case by simp
  qed
  show ?case
    using eq nm[of kids] by (simp add: comp_def)
qed

lemma unpruned_forest:
  "filter_nonnull (map (\<lambda>t. asYarnDependency H prefix t False) trees)
     = map (\<lambda>t. the (asYarnDependency H prefix t False)) trees"
proof -
  have "filter (\<lambda>t. asYarnDependency H prefix t False \<noteq> None) trees = trees"
    using asYarn_unpruned[of H prefix] by (auto simp: filter_id_conv)
  then show ?thesis by (simp add: filter_nonnull_map)
qed







lemma fallback_name:
  "parseSemver H label = None \<Longrightarrow> \<not> (prune \<and> test_range label) \<Longrightarrow>
     \<exists>d. asYarnDependency H prefix (YarnTreeNode label kids) prune = Some d
        \<and> name d = strip_version label \<and> path d = path_join H [prefix, name d]"
  by (simp add: Let_def)

lemma strip_version_cases:
  "strip_version s = (if \<exists>c rest. s = c # CHR ''@'' # rest \<and> c \<noteq> CHR ''@'' \<and> c \<noteq> CHR ''+''
                          \<and> (\<forall>x\<in>set rest. \<not> line_terminator x) then take 1 s else s)"
  by (auto simp: strip_version_def list_all_iff split: list.splits)

section \<open>The tree resolver: the claims\<close>

text \<open>
  C5. When the tree resolver succeeds on an allow-list \<open>L\<close>, its result holds the path
  of the node of every name of \<open>L\<close>, and for every selected node the paths of all the
  nodes of its subtree; that subtree is the whole original subtree: its nodes are the
  nodes of the raw tree, one for one, under their cleaned names.
\<close>

theorem selection_includes_subtrees:
  assumes "getYarnDependencies H cwd trees (Some L) = Inr res"
  shows "\<exists>sel. getYarnProductionDependencies H cwd trees (Some L) = Inr sel
     \<and> (\<forall>n\<in>set L. \<exists>d\<in>set sel. name d = n \<and> path d \<in> set res)
     \<and> (\<forall>d\<in>set sel. \<exists>t\<in>set trees.
            asYarnDependency H (path_join H [cwd, ''node_modules'']) t False = Some d
          \<and> map name (dep_nodes d) = map (\<lambda>r. cleaned_name H (raw_name r)) (raw_nodes t)
          \<and> path ` set (dep_nodes d) \<subseteq> set res)"
proof -
  let ?root = "path_join H [cwd, ''node_modules'']"
  let ?deps = "map (\<lambda>t. the (asYarnDependency H ?root t False)) trees"
  from assms obtain sel where sel: "getYarnProductionDependencies H cwd trees (Some L) = Inr sel"
    and res: "res = fold flatten sel [cwd]"
    by (auto simp: getYarnDependencies_def split: sum.splits)
  from sel have s: "selectYarnDependencies ?deps L = Inr sel"
    by (simp add: getYarnProductionDependencies_def unpruned_forest)
  then obtain data where b: "build_index ?deps [] = Inr data" and v: "visit data L [] = Inr sel"
    by (auto simp: selectYarnDependencies_def split: sum.splits)
  have ix: "indexes data ?deps" by (rule build_index_ok[OF b])
  have paths: "path ` set (dep_nodes d) \<subseteq> set res" if "d \<in> set sel" for d
    using that fold_flatten_props[of sel "[cwd]"] res by auto
  have 1: "\<forall>n\<in>set L. \<exists>d\<in>set sel. name d = n \<and> path d \<in> set res"
  proof
    fix n assume "n \<in> set L"
    with visit_Inr_contains[OF v] obtain d where d: "map_of data n = Some d" "d \<in> set sel" by blast
    with ix have "name d = n" by (simp add: indexes_def)
    moreover have "path d \<in> set res" using paths[OF d(2)] self_in_dep_nodes[of d] by blast
    ultimately show "\<exists>d\<in>set sel. name d = n \<and> path d \<in> set res" using d(2) by blast
  qed
  have 2: "\<forall>d\<in>set sel. \<exists>t\<in>set trees.
            asYarnDependency H ?root t False = Some d
          \<and> map name (dep_nodes d) = map (\<lambda>r. cleaned_name H (raw_name r)) (raw_nodes t)
          \<and> path ` set (dep_nodes d) \<subseteq> set res"
  proof
    fix d assume d: "d \<in> set sel"
    with visit_Inr_reached[OF v ix] have "d \<in> set ?deps" by auto
    then obtain t where t: "t \<in> set trees" "d = the (asYarnDependency H ?root t False)" by auto
    from asYarn_unpruned[of H ?root t] t(2) have "asYarnDependency H ?root t False = Some d"
      "map name (dep_nodes d) = map (\<lambda>r. cleaned_name H (raw_name r)) (raw_nodes t)" by auto
    with t(1) paths[OF d] show "\<exists>t\<in>set trees.
            asYarnDependency H ?root t False = Some d
          \<and> map name (dep_nodes d) = map (\<lambda>r. cleaned_name H (raw_name r)) (raw_nodes t)
          \<and> path ` set (dep_nodes d) \<subseteq> set res" by blast
  qed
  from sel 1 2 show ?thesis by blast
qed

lemma example_forest_result:
  "getYarnDependencies example_host ''/p'' example_forest (Some [''a''])
     = Inr [''/p'', ''/p/node_modules/a'', ''/p/node_modules/a/node_modules/b'',
            ''/p/node_modules/a/node_modules/b/node_modules/x'', ''/p/node_modules/b'']"
  by code_simp

theorem selection_includes_subtrees_witness:
  "getYarnDependencies example_host ''/p'' example_forest (Some [''a''])
     = Inr [''/p'', ''/p/node_modules/a'', ''/p/node_modules/a/node_modules/b'',
            ''/p/node_modules/a/node_modules/b/node_modules/x'', ''/p/node_modules/b'']
   \<and> (\<exists>sel. getYarnProductionDependencies example_host ''/p'' example_forest (Some [''a'']) = Inr sel
     \<and> (\<forall>n\<in>set [''a'']. \<exists>d\<in>set sel. name d = n \<and> path d \<in> set [''/p'', ''/p/node_modules/a'', ''/p/node_modules/a/node_modules/b'',
            ''/p/node_modules/a/node_modules/b/node_modules/x'', ''/p/node_modules/b'']))"
  using selection_includes_subtrees[OF example_forest_result] example_forest_result by blast



lemma left_pad_result:
  "getYarnDependencies example_host ''/p'' left_pad_forest None
     = Inr [''/p'', ''/p/node_modules/app-lib'', ''/p/node_modules/app-lib/node_modules/left-pad'']"
  by code_simp




text \<open>
  C7. The label \<open>lodash@next\<close>, which the strict parser of the example host rejects,
  keeps its version: the fallback pattern strips a version only from a name of one
  character.
\<close>

theorem fallback_keeps_version:
  "parseSemver example_host ''lodash@next'' = None
   \<and> asYarnDependency example_host ''/p/node_modules'' (YarnTreeNode ''lodash@next'' []) False
       = Some (YarnDependency ''lodash@next'' ''/p/node_modules/lodash@next'' [])"
  by code_simp

text \<open>
  C10. A child of a visited node is looked up by name among the top-level nodes. When
  the top-level names are unique: if the walk reaches a name that no top-level node
  carries, be it a seed or the child of a visited node, the selection fails with
  \<open>CouldNotFindDependency\<close> for such a name; otherwise it succeeds, and selects the
  top-level nodes of the reached names, not the children that led to them.
\<close>

theorem children_resolved_top_level:
  assumes "distinct (map name deps)"
  shows "((\<exists>n. reached_name deps L n \<and> n \<notin> name ` set deps) \<longrightarrow>
            (\<exists>m. selectYarnDependencies deps L = Inl (CouldNotFindDependency m)
                 \<and> reached_name deps L m \<and> m \<notin> name ` set deps))
       \<and> ((\<forall>n. reached_name deps L n \<longrightarrow> n \<in> name ` set deps) \<longrightarrow>
            (\<exists>sel. selectYarnDependencies deps L = Inr sel
                 \<and> set sel = {d \<in> set deps. reached_name deps L (name d)}))"
proof -
  from build_index_distinct[OF assms] obtain data where b: "build_index deps [] = Inr data" ..
  have ix: "indexes data deps" by (rule build_index_ok[OF b])
  have s: "selectYarnDependencies deps L = visit data L []"
    using b by (simp add: selectYarnDependencies_def)
  have none: "map_of data n = None \<longleftrightarrow> n \<notin> name ` set deps" for n
  proof -
    have "map_of data n \<noteq> None \<longleftrightarrow> (\<exists>d. d \<in> set deps \<and> name d = n)"
      using ix unfolding indexes_def by auto
    then show ?thesis by auto
  qed
  have fails: "\<exists>m. visit data L [] = Inl (CouldNotFindDependency m)
                 \<and> reached_name deps L m \<and> m \<notin> name ` set deps"
    if "reached_name deps L n" "n \<notin> name ` set deps" for n
  proof (cases "visit data L []")
    case (Inl e)
    from visit_Inl_reached[OF Inl ix] Inl show ?thesis by (auto simp: none)
  next
    case (Inr res)
    from visit_complete[OF Inr ix that(1)] that(2) show ?thesis by (auto simp: none[symmetric])
  qed
  have succeeds: "\<exists>sel. visit data L [] = Inr sel
                 \<and> set sel = {d \<in> set deps. reached_name deps L (name d)}"
    if all: "\<forall>n. reached_name deps L n \<longrightarrow> n \<in> name ` set deps"
  proof (cases "visit data L []")
    case (Inl e)
    from visit_Inl_reached[OF Inl ix] all show ?thesis by (auto simp: none)
  next
    case (Inr res)
    have "set res \<subseteq> {d \<in> set deps. reached_name deps L (name d)}"
      using visit_Inr_reached[OF Inr ix] by auto
    moreover have "d \<in> set res" if "d \<in> set deps" "reached_name deps L (name d)" for d
    proof -
      from visit_complete[OF Inr ix that(2)] obtain d' where "map_of data (name d) = Some d'" "d' \<in> set res"
        by blast
      moreover from that(1) ix have "map_of data (name d) = Some d" by (simp add: indexes_def)
      ultimately show ?thesis by simp
    qed
    ultimately show ?thesis using Inr by auto
  qed
  from fails succeeds show ?thesis unfolding s by blast
qed

lemma example_deps_select: "selectYarnDependencies example_deps [''a''] = Inr example_deps"
  by code_simp

theorem children_resolved_top_level_witness:
  "(\<exists>m. selectYarnDependencies example_deps_missing [''a''] = Inl (CouldNotFindDependency m)
       \<and> reached_name example_deps_missing [''a''] m \<and> m \<notin> name ` set example_deps_missing)
   \<and> (\<exists>sel. selectYarnDependencies example_deps [''a''] = Inr sel
       \<and> set sel = {d \<in> set example_deps. reached_name example_deps [''a''] (name d)})"
proof -
  have d: "distinct (map name example_deps_missing)" "distinct (map name example_deps)"
    by (simp_all add: example_deps_def example_deps_missing_def)
  have "reached_name example_deps_missing [''a''] ''a''"
    by (rule reached_name.seed) simp
  then have "reached_name example_deps_missing [''a'']
      (name (YarnDependency ''c'' ''/p/node_modules/a/node_modules/c'' []))"
    by (rule reached_name.child[where d = "hd example_deps_missing"])
       (simp_all add: example_deps_missing_def)
  moreover have "''c'' \<notin> name ` set example_deps_missing"
    by (simp add: example_deps_missing_def)
  ultimately have 1: "\<exists>n. reached_name example_deps_missing [''a''] n \<and> n \<notin> name ` set example_deps_missing"
    by auto
  have 2: "n \<in> name ` set example_deps" if "reached_name example_deps [''a''] n" for n
    using that by (induction rule: reached_name.induct) (auto simp: example_deps_def)
  from children_resolved_top_level[OF d(1), of "[''a'']"] 1
    children_resolved_top_level[OF d(2), of "[''a'']"] 2
  show ?thesis by blast
qed

section \<open>The lockfile resolver: lemmas\<close>

lemma getDeno_Inr:
  assumes "getDenoDependencies H found cwd pd = Inr ps"
  shows "\<exists>abs. ps = new_Set (if cwd \<in> set abs then abs else abs @ [cwd])"
  using assms
  by (auto simp: getDenoDependencies_def split: option.splits sum.splits prod.splits)

lemma split_no_version:
  "splitPackageAtVersion p = Inr (nm, None) \<Longrightarrow> nm = p"
  by (auto simp: splitPackageAtVersion_def Let_def split: if_splits)

lemma splitMulti_bare:
  assumes "splitPackageAtVersion p = Inr (nm, None)" and "p \<noteq> []"
  shows "splitMultiPackageAtVersion p = Inr [p]"
proof -
  from assms(2) obtain n where "length p = Suc n" by (cases p) auto
  with assms(1) show ?thesis by (simp add: splitMultiPackageAtVersion_def)
qed


lemma find_none: "list_all (\<lambda>x. \<not> P x) xs \<Longrightarrow> find P xs = None"
  by (simp add: find_None_iff list_all_iff)

lemma promise_all_paths:
  "set coll \<subseteq> Path ` S \<Longrightarrow> \<exists>ps. promise_all H coll = Inr ps \<and> set ps \<subseteq> S"
proof (induction coll)
  case Nil
  then show ?case by simp
next
  case (Cons x coll)
  then obtain p where "x = Path p" "p \<in> S" by auto
  moreover from Cons obtain ps where "promise_all H coll = Inr ps" "set ps \<subseteq> S" by auto
  ultimately show ?case by simp
qed

lemma drain_registry_empty: "drain_registry H lp lock i [] rd coll = Inr coll"
  by (simp add: drain_registry.simps)

text \<open>At the cap either loop ends and returns, whatever is left in its frontier.\<close>

lemma drain_workspaces_at_cap:
  "drain_workspaces H lp lock catalog MAX_ITERS frontier rd coll = Inr (rd, coll)"
  by (simp add: drain_workspaces.simps)

lemma drain_registry_at_cap:
  "drain_registry H lp lock MAX_ITERS frontier rd coll = Inr coll"
  by (simp add: drain_registry.simps)

text \<open>The two examples of the multi-package split.\<close>

lemma split_fdir_picomatch:
  "splitMultiPackageAtVersion ''fdir@6.4.6_picomatch@4.0.2'' = Inr [''fdir@6.4.6'', ''picomatch@4.0.2'']"
  by code_simp

lemma split_is_number:
  "splitMultiPackageAtVersion ''is-number@7.0.0'' = Inr [''is-number@7.0.0'']"
  by code_simp

text \<open>The cyclic workspace, iteration by iteration.\<close>

lemma cyclic_catalog_built:
  "map_throwing (workspaceWithMeta (files_host cyclic_files) ''/proj/deno.lock'')
     (iterDenoWorkspaceMembers lock_cyclic) = Inr cyclic_catalog"
  by code_simp

lemma cyclic_paths:
  "path_join (files_host cyclic_files) [''/proj/deno.lock'', ''..'', ''a''] = ''/proj/a''"
  "path_join (files_host cyclic_files) [''/proj/deno.lock'', ''..'', ''b''] = ''/proj/b''"
  by code_simp+

lemma cyclic_lookup:
  "map_of cyclic_catalog ''a'' = Some member_a"
  "map_of cyclic_catalog ''b'' = Some member_b"
  "map_of cyclic_catalog ''c'' = Some member_c"
  by (simp_all add: cyclic_catalog_def)

lemma cyclic_step_a:
  assumes "i < MAX_ITERS"
  shows "drain_workspaces (files_host cyclic_files) ''/proj/deno.lock'' lock_cyclic cyclic_catalog i
           (cs @ [(''a'', Some member_a)]) rd coll
       = drain_workspaces (files_host cyclic_files) ''/proj/deno.lock'' lock_cyclic cyclic_catalog (i + 1)
           ((cs @ [(''c'', Some member_c)]) @ [(''b'', Some member_b)]) rd (coll @ [Path ''/proj/a''])"
  using assms
  by (subst drain_workspaces.simps)
     (simp add: cyclic_lookup cyclic_paths member_a_def member_b_def member_c_def)

lemma cyclic_step_b:
  assumes "i < MAX_ITERS"
  shows "drain_workspaces (files_host cyclic_files) ''/proj/deno.lock'' lock_cyclic cyclic_catalog i
           (cs @ [(''b'', Some member_b)]) rd coll
       = drain_workspaces (files_host cyclic_files) ''/proj/deno.lock'' lock_cyclic cyclic_catalog (i + 1)
           (cs @ [(''a'', Some member_a)]) rd (coll @ [Path ''/proj/b''])"
  using assms
  by (subst drain_workspaces.simps)
     (simp add: cyclic_lookup cyclic_paths member_a_def member_b_def member_c_def)

lemma cyclic_drain:
  "MAX_ITERS - i = k \<Longrightarrow>
     (\<exists>coll'. drain_workspaces (files_host cyclic_files) ''/proj/deno.lock'' lock_cyclic cyclic_catalog i
                 (cs @ [(''a'', Some member_a)]) rd coll = Inr (rd, coll')
              \<and> set coll' \<subseteq> set coll \<union> {Path ''/proj/a'', Path ''/proj/b''})
   \<and> (\<exists>coll'. drain_workspaces (files_host cyclic_files) ''/proj/deno.lock'' lock_cyclic cyclic_catalog i
                 (cs @ [(''b'', Some member_b)]) rd coll = Inr (rd, coll')
              \<and> set coll' \<subseteq> set coll \<union> {Path ''/proj/a'', Path ''/proj/b''})"
proof (induction k arbitrary: i cs coll)
  case 0
  then have "\<not> i < MAX_ITERS" by simp
  then show ?case
    by (auto simp: drain_workspaces.simps)
next
  case (Suc k)
  then have lt: "i < MAX_ITERS" and k: "MAX_ITERS - (i + 1) = k" by simp_all
  from Suc.IH[OF k, of "cs @ [(''c'', Some member_c)]" "coll @ [Path ''/proj/a'']"]
  obtain c1 where c1:
    "drain_workspaces (files_host cyclic_files) ''/proj/deno.lock'' lock_cyclic cyclic_catalog (i + 1)
       ((cs @ [(''c'', Some member_c)]) @ [(''b'', Some member_b)]) rd
       (coll @ [Path ''/proj/a'']) = Inr (rd, c1)"
    "set c1 \<subseteq> set (coll @ [Path ''/proj/a'']) \<union> {Path ''/proj/a'', Path ''/proj/b''}"
    by blast
  from Suc.IH[OF k, of cs "coll @ [Path ''/proj/b'']"]
  obtain c2 where c2:
    "drain_workspaces (files_host cyclic_files) ''/proj/deno.lock'' lock_cyclic cyclic_catalog (i + 1)
       (cs @ [(''a'', Some member_a)]) rd
       (coll @ [Path ''/proj/b'']) = Inr (rd, c2)"
    "set c2 \<subseteq> set (coll @ [Path ''/proj/b'']) \<union> {Path ''/proj/a'', Path ''/proj/b''}"
    by blast
  have a: "drain_workspaces (files_host cyclic_files) ''/proj/deno.lock'' lock_cyclic cyclic_catalog i
                 (cs @ [(''a'', Some member_a)]) rd coll = Inr (rd, c1)"
    by (simp only: cyclic_step_a[OF lt] c1(1))
  have b: "drain_workspaces (files_host cyclic_files) ''/proj/deno.lock'' lock_cyclic cyclic_catalog i
                 (cs @ [(''b'', Some member_b)]) rd coll = Inr (rd, c2)"
    by (simp only: cyclic_step_b[OF lt] c2(1))
  from a b c1(2) c2(2) show ?case by auto
qed

lemma cyclic_seed: "seed_registries lock_cyclic [''a''] KNOWN_REGISTRIES [] = Inr []"
  by code_simp

lemma cyclic_matched:
  "map (\<lambda>(localPath, ws). (localPath, Some ws))
     (filter (\<lambda>(localPath, ws). meta_name ws \<in> set [''a'']) cyclic_catalog)
   = [] @ [(''a'', Some (member_a))]"
  by (simp add: cyclic_catalog_def member_a_def member_b_def member_c_def)

section \<open>The lockfile resolver: the claims\<close>

text \<open>
  C1. On the cyclic workspace the loop over the workspace frontier stops at the cap with
  members pending, and the call returns a result: no error is raised, and the directory
  of the member \<open>c\<close>, which \<open>a\<close> depends on, is not in it.
\<close>

theorem cap_returns_partial_result:
  "\<exists>ps. getDenoDependencies (files_host cyclic_files) (Some (''/proj/deno.lock'', lock_cyclic))
           ''/proj'' (Some [''a'']) = Inr ps
      \<and> ''/proj/c'' \<notin> set ps"
proof -
  from cyclic_drain[of 0 MAX_ITERS "[]" "[]" "[]"]
  obtain coll where d: "drain_workspaces (files_host cyclic_files) ''/proj/deno.lock'' lock_cyclic
       cyclic_catalog 0 ([] @ [(''a'', Some (member_a))]) [] [] = Inr ([], coll)"
    and sub: "set coll \<subseteq> {Path ''/proj/a'', Path ''/proj/b''}"
    by auto
  from sub have "set coll \<subseteq> Path ` {''/proj/a'', ''/proj/b''}" by auto
  from promise_all_paths[OF this, of "files_host cyclic_files"] obtain abs where
    abs: "promise_all (files_host cyclic_files) coll = Inr abs" "set abs \<subseteq> {''/proj/a'', ''/proj/b''}"
    by blast
  have sel: "selectDenoDependencies (files_host cyclic_files) ''/proj/deno.lock'' lock_cyclic [''a''] = Inr abs"
    unfolding selectDenoDependencies_def
    by (simp only: cyclic_catalog_built cyclic_seed Let_def sum.case cyclic_matched d prod.case
        drain_registry_empty abs(1))
  have "getDenoDependencies (files_host cyclic_files) (Some (''/proj/deno.lock'', lock_cyclic))
           ''/proj'' (Some [''a'']) = Inr (new_Set (if ''/proj'' \<in> set abs then abs else abs @ [''/proj'']))"
    by (simp add: getDenoDependencies_def sel)
  moreover have "''/proj/c'' \<notin> set (new_Set (if ''/proj'' \<in> set abs then abs else abs @ [''/proj'']))"
    using abs(2) new_Set_props[of "if ''/proj'' \<in> set abs then abs else abs @ [''/proj'']" "[]"]
    by (auto simp: new_Set_def)
  ultimately show ?thesis by blast
qed

text \<open>
  C2. Without an allow-list only the section \<open>npm\<close> is read: of a document with an
  entry in \<open>npm\<close> and one in \<open>jsr\<close> the result holds the store path of the first and
  the project root, not the store path of \<open>@std/path@1.0.0\<close>.
\<close>

theorem no_allow_list_reads_npm_only:
  "getDenoDependencies example_host (Some (''/proj/deno.lock'', lock_npm_jsr)) ''/proj'' None
     = Inr [''/proj/node_modules/.deno/lodash@4.17.21/node_modules'', ''/proj'']"
  by code_simp

lemma allow_list_reads_jsr:
  "getDenoDependencies example_host (Some (''/proj/deno.lock'', lock_npm_jsr)) ''/proj''
       (Some [''@std/path''])
     = Inr [''/proj/node_modules/.deno/@std+path@1.0.0/node_modules'', ''/proj'']"
  by code_simp

text \<open>
  C3. A key of three packages loses the third: \<^verbatim>\<open>split('_', 2)\<close> keeps two pieces of
  the version tail and drops what follows the second underscore.
\<close>

theorem split_drops_third_package:
  "splitMultiPackageAtVersion ''a@1.0.0_b@2.0.0_c@3.0.0'' = Inr [''a@1.0.0'', ''b@2.0.0'']"
  by code_simp

text \<open>
  C4. A workspace dependency is pushed under its name, and looked up by that name in a
  catalog that is keyed on directories. For the renamed members the result holds the
  directory \<open>b\<close> of the member called \<open>c\<close>, and not the directory \<open>a\<close> of the
  member \<open>b\<close> that \<open>app\<close> depends on.
\<close>

theorem workspace_dependency_looked_up_by_name:
  "getDenoDependencies (files_host renamed_files) (Some (''/proj/deno.lock'', lock_renamed)) ''/proj''
       (Some [''app''])
     = Inr [''/proj/x'', ''/proj/b'', ''/proj'']"
  by code_simp

lemma workspace_dependency_by_name_undefined:
  "getDenoDependencies (files_host packages_files) (Some (''/proj/deno.lock'', lock_packages)) ''/proj''
       (Some [''app''])
     = Inl TypeError"
  by code_simp


text \<open>The same happens for a name that the section inherits from \<^verbatim>\<open>Object.prototype\<close>:
  the read of \<open>constructor\<close> in the section is truthy and has no dependencies.\<close>

lemma inherited_name_resolves:
  assumes tok: "split2 versionString CHR '':'' = (registryId, Some packageAtVersion)"
      and ne: "registryId \<noteq> []" "packageAtVersion \<noteq> []"
      and nov: "splitPackageAtVersion packageAtVersion = Inr (packageName, None)"
      and reg: "map_of (registries denoLock) registryId = Some entries"
      and none: "list_all (\<lambda>key. \<not> startsWith key (packageName @ ''@'')) (map fst entries)"
        "map_of entries packageName = None"
      and inh: "packageName \<in> set Object_prototype"
  shows "registry_step H lp denoLock versionString frontier rd collected
           = Inr (frontier, rd, collected @ [denoPath H lp packageName])"
proof -
  have pn: "packageName = packageAtVersion" by (rule split_no_version[OF nov])
  have rr: "read_registry H denoLock registryId = Section entries"
    by (simp add: read_registry_def reg)
  from none(1) have "find (\<lambda>key. startsWith key (packageName @ ''@'')) (map fst entries) = None"
    by (simp add: find_none)
  then have iv: "infer_version H denoLock registryId packageName None packageAtVersion = Inr packageAtVersion"
    by (simp add: infer_version_def registry_keys_def rr)
  have sm: "splitMultiPackageAtVersion packageAtVersion = Inr [packageAtVersion]"
    by (rule splitMulti_bare[OF nov ne(2)])
  show ?thesis
    using none(2) inh tok ne nov iv sm rr pn by (auto simp: registry_step_def read_entry_def)
qed

lemma inherited_name_example:
  "getDenoDependencies example_host (Some (''/proj/deno.lock'', lock_inherited_name)) ''/proj'' (Some [''a''])
     = Inr [''/proj/node_modules/.deno/a@1.0.0/node_modules'',
            ''/proj/node_modules/.deno/constructor/node_modules'', ''/proj'']"
  by code_simp




section \<open>Both resolvers\<close>

text \<open>
  C9. A result of either resolver, with or without an allow-list, has no path twice and
  holds the project root.
\<close>

theorem results_distinct_with_root:
  "(getYarnDependencies H cwd trees pd = Inr ps \<longrightarrow> distinct ps \<and> cwd \<in> set ps)
   \<and> (getDenoDependencies H found cwd pd = Inr ps \<longrightarrow> distinct ps \<and> cwd \<in> set ps)"
proof -
  have "distinct ps \<and> cwd \<in> set ps" if "getYarnDependencies H cwd trees pd = Inr ps"
  proof -
    from that obtain deps where "ps = fold flatten deps [cwd]"
      by (auto simp: getYarnDependencies_def split: sum.splits)
    with fold_flatten_props[of deps "[cwd]"] show ?thesis by simp
  qed
  moreover have "distinct ps \<and> cwd \<in> set ps" if "getDenoDependencies H found cwd pd = Inr ps"
  proof -
    from getDeno_Inr[OF that] obtain abs where
      "ps = new_Set (if cwd \<in> set abs then abs else abs @ [cwd])" ..
    with new_Set_props[of "if cwd \<in> set abs then abs else abs @ [cwd]" "[]"]
    show ?thesis by (auto simp: new_Set_def)
  qed
  ultimately show ?thesis by blast
qed

lemma lock_root_result:
  "getDenoDependencies (files_host root_files) (Some (''/proj/deno.lock'', lock_root)) ''/proj'' (Some [''app''])
     = Inr [''/proj'', ''/proj/node_modules/.deno/lodash@4.17.21/node_modules'']"
  by code_simp

theorem results_distinct_with_root_witness:
  "getYarnDependencies example_host ''/p'' example_forest (Some [''a''])
     = Inr [''/p'', ''/p/node_modules/a'', ''/p/node_modules/a/node_modules/b'',
            ''/p/node_modules/a/node_modules/b/node_modules/x'', ''/p/node_modules/b'']
   \<and> distinct [''/p'', ''/p/node_modules/a'', ''/p/node_modules/a/node_modules/b'',
            ''/p/node_modules/a/node_modules/b/node_modules/x'', ''/p/node_modules/b'']
   \<and> getDenoDependencies (files_host root_files) (Some (''/proj/deno.lock'', lock_root)) ''/proj''
         (Some [''app''])
     = Inr [''/proj'', ''/proj/node_modules/.deno/lodash@4.17.21/node_modules'']
   \<and> distinct [''/proj'', ''/proj/node_modules/.deno/lodash@4.17.21/node_modules'']"
  using results_distinct_with_root[where H = example_host and cwd = "''/p''" and trees = example_forest
      and pd = "Some [''a'']"
      and ps = "[''/p'', ''/p/node_modules/a'', ''/p/node_modules/a/node_modules/b'',
            ''/p/node_modules/a/node_modules/b/node_modules/x'', ''/p/node_modules/b'']"]
    results_distinct_with_root[where H = "files_host root_files" and cwd = "''/proj''"
      and pd = "Some [''app'']" and found = "Some (''/proj/deno.lock'', lock_root)"
      and ps = "[''/proj'', ''/proj/node_modules/.deno/lodash@4.17.21/node_modules'']"]
    example_forest_result lock_root_result
  by blast

end
